theory Spec2Isabelle
  imports Main
begin

section \<open>The open-addressing hash map of hashMap_with_expansion.py\<close>

text \<open>
  The source is Python 2 (\<^verbatim>\<open>basestring\<close>). A key handed to the container is any Python
  object; the code distinguishes three kinds of it: an \<^verbatim>\<open>int\<close>, a \<^verbatim>\<open>basestring\<close>
  (a byte string, read character by character with \<^verbatim>\<open>ord\<close>), and everything else
  (a float, a tuple, \<^verbatim>\<open>None\<close>, a Python 2 \<^verbatim>\<open>long\<close>, ...), which \<open>OtherKey\<close>
  stands for, carrying the object's printed form. A \<^verbatim>\<open>bool\<close> is an \<^verbatim>\<open>int\<close> in
  Python, 0 or 1. Two keys are equal, as with Python's \<^verbatim>\<open>==\<close> on ints and
  strings, when they are of the same kind and hold the same value.
\<close>

datatype key = IntKey int | StrKey string | OtherKey string

text \<open>
  The exceptions the code can raise: \<^verbatim>\<open>TypeError\<close> for a key of the wrong kind (and
  for iterating over a non-iterable in \<^verbatim>\<open>custom_hash\<close>), \<^verbatim>\<open>KeyError\<close> for a key
  not found, and the two the interpreter raises for a list index out of range and for
  a division or modulus by zero.
\<close>

datatype error = TypeError | KeyError | IndexError | ZeroDivisionError

subsection \<open>custom_hash\<close>

text \<open>
  The loop \<^verbatim>\<open>for char in key: result = 33 * result + ord(char)\<close>, with the running
  \<^verbatim>\<open>result\<close> as its first argument. Python integers are unbounded: \<open>int\<close>.
  For an object of another kind the test \<^verbatim>\<open>isinstance(key, int)\<close> fails and the
  \<^verbatim>\<open>for\<close> raises TypeError (a float is not iterable); no method of the container
  lets such a key come this far.
\<close>

fun custom_hash_loop :: "int \<Rightarrow> string \<Rightarrow> int" where
  "custom_hash_loop result [] = result"
| "custom_hash_loop result (char # rest) = custom_hash_loop (33 * result + of_char char) rest"

fun custom_hash :: "key \<Rightarrow> error + int" where
  "custom_hash (IntKey n) = Inr n"
| "custom_hash (StrKey s) = Inr (custom_hash_loop 5381 s)"
| "custom_hash (OtherKey r) = Inl TypeError"

subsection \<open>The container\<close>

text \<open>
  The fields of \<^verbatim>\<open>Hash\<close>. A slot of \<^verbatim>\<open>_keys\<close> holding Python's \<^verbatim>\<open>None\<close> is
  \<open>None\<close> here. A value is any Python object, \<^verbatim>\<open>None\<close> included: \<open>'v option\<close>,
  with \<open>None\<close> for \<^verbatim>\<open>None\<close> and \<open>'v\<close> for the objects the container does not
  look into. \<^verbatim>\<open>_max_threshold\<close> is the constant 0.70 and
  \<^verbatim>\<open>__initial_size\<close> is never read; the first is written into \<open>should_expand\<close>
  and the second is left out.
\<close>

record 'v Hash =
  h_size :: nat
  h_used_slots :: nat
  h_dummy_slots :: nat
  h_keys :: "key option list"
  h_values :: "'v option list"
  h_hash :: "key \<Rightarrow> error + int"

text \<open>
  \<^verbatim>\<open>__init__(self, size=8, hashfunction=custom_hash)\<close>: the body reads neither
  parameter (\<open>size_arg\<close> is the parameter \<^verbatim>\<open>size\<close>).
\<close>

definition Hash_init :: "nat \<Rightarrow> (key \<Rightarrow> error + int) \<Rightarrow> 'v Hash" where
  "Hash_init size_arg hashfunction =
     \<lparr> h_size = 8, h_used_slots = 0, h_dummy_slots = 0,
       h_keys = replicate 8 None, h_values = replicate 8 None,
       h_hash = custom_hash \<rparr>"

text \<open>
  \<^verbatim>\<open>float(used + dummy) / size >= 0.70\<close>. The comparison is modelled in exact
  arithmetic, \<open>7 * size \<le> 10 * (used + dummy)\<close>. The two agree for every size
  below \<open>10 ^ 15\<close>: a quotient below 7/10 is below it by \<open>1 / (10 * size)\<close> at
  least, more than the \<open>10 ^ -16\<close> that rounding the quotient and the constant
  0.70 to doubles can make up for. A size of 0 makes Python's division raise.
\<close>

definition should_expand :: "'v Hash \<Rightarrow> error + bool" where
  "should_expand h =
     (if h_size h = 0 then Inl ZeroDivisionError
      else Inr (7 * h_size h \<le> 10 * (h_used_slots h + h_dummy_slots h)))"

definition probing :: "'v Hash \<Rightarrow> nat \<Rightarrow> error + nat" where
  "probing h current_position =
     (if h_size h = 0 then Inl ZeroDivisionError
      else Inr (((5 + current_position) + 1) mod h_size h))"

text \<open>
  A mutating method returns the new container, or the exception together with the
  container as it is when the exception is raised.
\<close>

type_synonym 'v outcome = "(error \<times> 'v Hash) + 'v Hash"

definition set_item_at_pos :: "'v Hash \<Rightarrow> nat \<Rightarrow> key \<Rightarrow> 'v option \<Rightarrow> 'v outcome" where
  "set_item_at_pos h position key val =
     (if position < length (h_keys h) then
        (let h1 = h\<lparr> h_keys := (h_keys h)[position := Some key] \<rparr> in
         if position < length (h_values h1) then
           (let h2 = h1\<lparr> h_values := (h_values h1)[position := val] \<rparr> in
            Inr (h2\<lparr> h_used_slots := h_used_slots h2 + 1 \<rparr>))
         else Inl (IndexError, h1))
      else Inl (IndexError, h))"

text \<open>
  The recursion of \<^verbatim>\<open>_set_item\<close> has no bound in the source; a walk that never
  reaches a free slot or the key is the value \<open>None\<close> (Python's recursion limit is
  taken as unbounded).
\<close>

partial_function (option) set_item :: "'v Hash \<Rightarrow> nat \<Rightarrow> key \<Rightarrow> 'v option \<Rightarrow> 'v outcome option" where
  "set_item h position key val =
     (if position < length (h_keys h) then
        (let existing_key = h_keys h ! position in
         if existing_key = None \<or> existing_key = Some key then
           Some (set_item_at_pos h position key val)
         else
           (case probing h position of
              Inl e \<Rightarrow> Some (Inl (e, h))
            | Inr new_position \<Rightarrow> set_item h new_position key val))
      else Some (Inl (IndexError, h)))"

declare set_item.simps [code]

definition calculate_position :: "'v Hash \<Rightarrow> int \<Rightarrow> error + nat" where
  "calculate_position h hashvalue =
     (if h_size h = 0 then Inl ZeroDivisionError
      else Inr (nat (hashvalue mod int (h_size h))))"

text \<open>
  \<^verbatim>\<open>_reposition\<close>: the loop over \<^verbatim>\<open>zip(keys, values)\<close>, which stops with the shorter
  list.
\<close>

fun reposition :: "'v Hash \<Rightarrow> (key option \<times> 'v option) list \<Rightarrow> 'v outcome option" where
  "reposition h [] = Some (Inr h)"
| "reposition h ((None, val) # rest) = reposition h rest"
| "reposition h ((Some key, val) # rest) =
     (case h_hash h key of
        Inl e \<Rightarrow> Some (Inl (e, h))
      | Inr hashvalue \<Rightarrow>
          (case calculate_position h hashvalue of
             Inl e \<Rightarrow> Some (Inl (e, h))
           | Inr position \<Rightarrow>
               (case set_item h position key val of
                  None \<Rightarrow> None
                | Some (Inl eh) \<Rightarrow> Some (Inl eh)
                | Some (Inr h1) \<Rightarrow> reposition h1 rest)))"

text \<open>
  \<^verbatim>\<open>_resize\<close>: the old lists are kept aside, the size is multiplied by four, both
  lists are replaced by fresh ones and both counters set to zero, and the old slots
  are put back in, without any look at the threshold.
\<close>

definition resize :: "'v Hash \<Rightarrow> 'v outcome option" where
  "resize h =
     (let old_keys = h_keys h;
          old_values = h_values h;
          h1 = h\<lparr> h_size := h_size h * 4 \<rparr>;
          h2 = h1\<lparr> h_keys := replicate (h_size h1) None \<rparr>;
          h3 = h2\<lparr> h_values := replicate (h_size h2) None \<rparr>;
          h4 = h3\<lparr> h_used_slots := 0 \<rparr>;
          h5 = h4\<lparr> h_dummy_slots := 0 \<rparr>
      in reposition h5 (zip old_keys old_values))"

text \<open>\<^verbatim>\<open>isinstance(key, (basestring, int))\<close>.\<close>

fun acceptable_key :: "key \<Rightarrow> bool" where
  "acceptable_key (IntKey n) = True"
| "acceptable_key (StrKey s) = True"
| "acceptable_key (OtherKey r) = False"

definition raise_if_not_acceptable_key :: "'v Hash \<Rightarrow> key \<Rightarrow> error + unit" where
  "raise_if_not_acceptable_key h key =
     (if \<not> acceptable_key key then Inl TypeError else Inr ())"

definition put :: "'v Hash \<Rightarrow> key \<Rightarrow> 'v option \<Rightarrow> 'v outcome option" where
  "put h key val =
     (case raise_if_not_acceptable_key h key of
        Inl e \<Rightarrow> Some (Inl (e, h))
      | Inr u \<Rightarrow>
          (case should_expand h of
             Inl e \<Rightarrow> Some (Inl (e, h))
           | Inr expand \<Rightarrow>
               (case (if expand then resize h else Some (Inr h)) of
                  None \<Rightarrow> None
                | Some (Inl eh) \<Rightarrow> Some (Inl eh)
                | Some (Inr h1) \<Rightarrow>
                    (case h_hash h1 key of
                       Inl e \<Rightarrow> Some (Inl (e, h1))
                     | Inr hashvalue \<Rightarrow>
                         (case calculate_position h1 hashvalue of
                            Inl e \<Rightarrow> Some (Inl (e, h1))
                          | Inr position \<Rightarrow> set_item h1 position key val)))))"

subsection \<open>Lookup and deletion\<close>

text \<open>
  The methods of the lookup assign to no field, so they return a result or an
  exception and no container. Like \<^verbatim>\<open>_set_item\<close>, \<^verbatim>\<open>_get_pos_recursively\<close> has
  no bound.
\<close>

partial_function (option) get_pos_recursively :: "'v Hash \<Rightarrow> nat \<Rightarrow> key \<Rightarrow> (error + nat) option" where
  "get_pos_recursively h position key =
     (case probing h position of
        Inl e \<Rightarrow> Some (Inl e)
      | Inr new_position \<Rightarrow>
          (if new_position < length (h_keys h) then
             (let tmp_key = h_keys h ! new_position in
              if tmp_key = None then Some (Inl KeyError)
              else if tmp_key \<noteq> Some key then get_pos_recursively h new_position key
              else Some (Inr new_position))
           else Some (Inl IndexError)))"

declare get_pos_recursively.simps [code]

definition get_pos :: "'v Hash \<Rightarrow> key \<Rightarrow> (error + nat) option" where
  "get_pos h key =
     (case raise_if_not_acceptable_key h key of
        Inl e \<Rightarrow> Some (Inl e)
      | Inr u \<Rightarrow>
          (case h_hash h key of
             Inl e \<Rightarrow> Some (Inl e)
           | Inr hashvalue \<Rightarrow>
               (case calculate_position h hashvalue of
                  Inl e \<Rightarrow> Some (Inl e)
                | Inr position \<Rightarrow>
                    (if position < length (h_keys h) then
                       (let tmp_key = h_keys h ! position in
                        if tmp_key = None then Some (Inl KeyError)
                        else if tmp_key \<noteq> Some key then get_pos_recursively h position key
                        else Some (Inr position))
                     else Some (Inl IndexError)))))"

text \<open>
  \<^verbatim>\<open>get\<close>: \<^verbatim>\<open>_get_pos\<close> returns an index or raises, so the test
  \<^verbatim>\<open>position is None\<close> never holds.
\<close>

definition get :: "'v Hash \<Rightarrow> key \<Rightarrow> (error + 'v option) option" where
  "get h key =
     (case get_pos h key of
        None \<Rightarrow> None
      | Some (Inl e) \<Rightarrow> Some (Inl e)
      | Some (Inr position) \<Rightarrow>
          (if position < length (h_values h) then Some (Inr (h_values h ! position))
           else Some (Inl IndexError)))"

definition delete_item :: "'v Hash \<Rightarrow> nat \<Rightarrow> key \<Rightarrow> 'v outcome" where
  "delete_item h position key =
     (if position < length (h_keys h) then
        (let h1 = h\<lparr> h_keys := (h_keys h)[position := None] \<rparr> in
         if position < length (h_values h1) then
           (let h2 = h1\<lparr> h_values := (h_values h1)[position := None] \<rparr> in
            Inr (h2\<lparr> h_dummy_slots := h_dummy_slots h2 + 1 \<rparr>))
         else Inl (IndexError, h1))
      else Inl (IndexError, h))"

definition delete :: "'v Hash \<Rightarrow> key \<Rightarrow> 'v outcome option" where
  "delete h key =
     (case get_pos h key of
        None \<Rightarrow> None
      | Some (Inl e) \<Rightarrow> Some (Inl (e, h))
      | Some (Inr position) \<Rightarrow> Some (delete_item h position key))"

subsection \<open>Sequences of calls\<close>

text \<open>
  A caller's call of one of the three public methods, and what the caller sees of it:
  the returned object (\<^verbatim>\<open>put\<close> and \<^verbatim>\<open>delete\<close> return \<^verbatim>\<open>None\<close>) or the exception.
  An exception leaves the container as it was when it was raised, and the caller goes
  on with it; a call that never returns stops the sequence.
\<close>

datatype 'v operation = Put key "'v option" | Get key | Delete key

datatype 'v result = Returned "'v option" | Raised error

fun apply_operation :: "'v Hash \<Rightarrow> 'v operation \<Rightarrow> ('v result \<times> 'v Hash) option" where
  "apply_operation h (Put key val) =
     (case put h key val of
        None \<Rightarrow> None
      | Some (Inl (e, h1)) \<Rightarrow> Some (Raised e, h1)
      | Some (Inr h1) \<Rightarrow> Some (Returned None, h1))"
| "apply_operation h (Get key) =
     (case get h key of
        None \<Rightarrow> None
      | Some (Inl e) \<Rightarrow> Some (Raised e, h)
      | Some (Inr val) \<Rightarrow> Some (Returned val, h))"
| "apply_operation h (Delete key) =
     (case delete h key of
        None \<Rightarrow> None
      | Some (Inl (e, h1)) \<Rightarrow> Some (Raised e, h1)
      | Some (Inr h1) \<Rightarrow> Some (Returned None, h1))"

fun apply_operations :: "'v Hash \<Rightarrow> 'v operation list \<Rightarrow> ('v result list \<times> 'v Hash) option" where
  "apply_operations h [] = Some ([], h)"
| "apply_operations h (c # cs) =
     (case apply_operation h c of
        None \<Rightarrow> None
      | Some (r, h1) \<Rightarrow>
          (case apply_operations h1 cs of
             None \<Rightarrow> None
           | Some (rs, h2) \<Rightarrow> Some (r # rs, h2)))"

text \<open>
  The size, the two counters and the two slot lists of a container: every field but
  the hash function.
\<close>

definition observe :: "'v Hash \<Rightarrow> nat \<times> nat \<times> nat \<times> key option list \<times> 'v option list" where
  "observe h = (h_size h, h_used_slots h, h_dummy_slots h, h_keys h, h_values h)"

definition observed :: "('v result list \<times> 'v Hash) option \<Rightarrow>
    ('v result list \<times> nat \<times> nat \<times> nat \<times> key option list \<times> 'v option list) option" where
  "observed r = map_option (map_prod id observe) r"

text \<open>A caller's own hash function, sending every key to 0.\<close>

definition zero_hash :: "key \<Rightarrow> error + int" where
  "zero_hash key = Inr 0"

text \<open>
  The accumulation of the specification: start at 5381 and, for each character in
  order, set the accumulator to 33 times itself plus the character's code.
\<close>

definition djb2_spec :: "string \<Rightarrow> int" where
  "djb2_spec s = foldl (\<lambda>accumulator character. 33 * accumulator + of_char character) 5381 s"

subsection \<open>Notions used in the proofs\<close>

text \<open>
  The test that \<^verbatim>\<open>_get_pos\<close> makes at the first position and
  \<^verbatim>\<open>_get_pos_recursively\<close> at each later one: the walk of the lookup, seen from
  the position it is about to read.
\<close>

definition lookup_from :: "'v Hash \<Rightarrow> nat \<Rightarrow> key \<Rightarrow> (error + nat) option" where
  "lookup_from h position key =
     (if position < length (h_keys h) then
        (let tmp_key = h_keys h ! position in
         if tmp_key = None then Some (Inl KeyError)
         else if tmp_key \<noteq> Some key then get_pos_recursively h position key
         else Some (Inr position))
      else Some (Inl IndexError))"

text \<open>
  The container after \<^verbatim>\<open>_set_item_at_pos\<close> has written slot \<open>q\<close>, and the
  container after \<^verbatim>\<open>_delete_item\<close> has cleared it.
\<close>

definition placed :: "'v Hash \<Rightarrow> nat \<Rightarrow> key \<Rightarrow> 'v option \<Rightarrow> 'v Hash" where
  "placed h q key val =
     h\<lparr> h_keys := (h_keys h)[q := Some key], h_values := (h_values h)[q := val],
        h_used_slots := h_used_slots h + 1 \<rparr>"

definition removed :: "'v Hash \<Rightarrow> nat \<Rightarrow> 'v Hash" where
  "removed h q =
     h\<lparr> h_keys := (h_keys h)[q := None], h_values := (h_values h)[q := None],
        h_dummy_slots := h_dummy_slots h + 1 \<rparr>"

text \<open>
  What a returning \<^verbatim>\<open>_set_item\<close> started at \<open>p\<close> has done: it has written one
  slot \<open>q\<close>, which was free or held the key; \<open>q\<close> is where the lookup walk from
  \<open>p\<close> stopped before the write (at a free slot, with KeyError, or at the key), and
  where it ends after it.
\<close>

definition written :: "'v Hash \<Rightarrow> nat \<Rightarrow> key \<Rightarrow> 'v option \<Rightarrow> 'v Hash \<Rightarrow> nat \<Rightarrow> bool" where
  "written h p key val h' q \<longleftrightarrow>
     q < length (h_keys h) \<and> q < length (h_values h)
     \<and> (h_keys h ! q = None \<or> h_keys h ! q = Some key)
     \<and> h' = placed h q key val
     \<and> lookup_from h p key = (if h_keys h ! q = None then Some (Inl KeyError) else Some (Inr q))
     \<and> lookup_from h' p key = Some (Inr q)"

definition placed_at :: "'v Hash \<Rightarrow> nat \<Rightarrow> key \<Rightarrow> 'v option \<Rightarrow> 'v outcome \<Rightarrow> bool" where
  "placed_at h p key val y \<longleftrightarrow> (\<forall>h'. y = Inr h' \<longrightarrow> (\<exists>q. written h p key val h' q))"

text \<open>
  What a lookup walk that has found slot \<open>q\<close> implies: the slot holds the key, and
  once it is cleared the same walk ends there with KeyError.
\<close>

definition found_then_cut :: "'v Hash \<Rightarrow> nat \<Rightarrow> key \<Rightarrow> error + nat \<Rightarrow> bool" where
  "found_then_cut h p key y \<longleftrightarrow>
     (\<forall>q. y = Inr q \<longrightarrow>
        q < length (h_keys h) \<and> h_keys h ! q = Some key
        \<and> get_pos_recursively (removed h q) p key = Some (Inl KeyError))"

text \<open>
  A lookup walk that has found its key finds it again after another key has been
  written to a slot that was free or held that other key.
\<close>

definition unmoved :: "'v Hash \<Rightarrow> nat \<Rightarrow> key \<Rightarrow> error + nat \<Rightarrow> bool" where
  "unmoved h p key' y \<longleftrightarrow>
     (\<forall>i q key val. y = Inr i \<and> key \<noteq> key'
          \<and> (h_keys h ! q = None \<or> h_keys h ! q = Some key)
        \<longrightarrow> get_pos_recursively (placed h q key val) p key' = Some (Inr i))"

text \<open>
  Every key in a slot is found by the lookup, at that slot. It is the third invariant
  of the specification (every stored key is reachable from its first position), and
  it implies the second (no key is in two slots).
\<close>

definition slots_found :: "'v Hash \<Rightarrow> bool" where
  "slots_found h \<longleftrightarrow>
     (\<forall>i k. i < length (h_keys h) \<and> h_keys h ! i = Some k \<longrightarrow> get_pos h k = Some (Inr i))"

text \<open>
  The keys that \<^verbatim>\<open>_reposition\<close> puts back, in order, and the container
  \<^verbatim>\<open>_resize\<close> hands to it.
\<close>

fun stored_keys :: "(key option \<times> 'v option) list \<Rightarrow> key list" where
  "stored_keys [] = []"
| "stored_keys ((None, val) # rest) = stored_keys rest"
| "stored_keys ((Some key, val) # rest) = key # stored_keys rest"

definition emptied :: "'v Hash \<Rightarrow> 'v Hash" where
  "emptied h =
     h\<lparr> h_size := h_size h * 4, h_keys := replicate (h_size h * 4) None,
        h_values := replicate (h_size h * 4) None, h_used_slots := 0, h_dummy_slots := 0 \<rparr>"

text \<open>
  A container as the methods leave it: the two lists have the length the size says,
  the size is not zero, the hash function is the one \<^verbatim>\<open>__init__\<close> sets, and the
  keys in the slots are integers or text. On such a container \<^verbatim>\<open>_set_item\<close>
  raises nothing.
\<close>

definition well_formed :: "'v Hash \<Rightarrow> bool" where
  "well_formed h \<longleftrightarrow>
     0 < h_size h \<and> length (h_keys h) = h_size h \<and> length (h_values h) = h_size h
     \<and> h_hash h = custom_hash \<and> (\<forall>k. Some k \<in> set (h_keys h) \<longrightarrow> acceptable_key k)"

definition returns :: "'v Hash \<Rightarrow> nat \<Rightarrow> key \<Rightarrow> 'v option \<Rightarrow> 'v outcome \<Rightarrow> bool" where
  "returns h p key val y \<longleftrightarrow>
     (length (h_keys h) = h_size h \<and> length (h_values h) = h_size h \<and> p < h_size h
        \<longrightarrow> (\<exists>h'. y = Inr h'))"

text \<open>
  A container whose even slots hold the keys 0, 2, 4 and 6, and a walk for the key 8
  standing on one of them.
\<close>

definition even_slots_full :: "'v Hash \<Rightarrow> nat \<Rightarrow> key \<Rightarrow> bool" where
  "even_slots_full h p key \<longleftrightarrow>
     h_size h = 8
     \<and> h_keys h = [Some (IntKey 0), None, Some (IntKey 2), None, Some (IntKey 4), None,
                   Some (IntKey 6), None]
     \<and> key = IntKey 8 \<and> p \<in> {0, 2, 4, 6}"

section \<open>Hashing\<close>

lemma custom_hash_loop_foldl:
  "custom_hash_loop result s =
     foldl (\<lambda>accumulator character. 33 * accumulator + of_char character) result s"
  by (induction s arbitrary: result) simp_all

text \<open>
  C7. The hash of an integer key is the integer itself, and the hash of a text key is
  the accumulation that starts at 5381 and takes the accumulator to 33 times itself
  plus the code of the character, for each character in order, with no modulus. The
  hash is a function of the key alone.
\<close>

theorem C7_custom_hash:
  "custom_hash (IntKey n) = Inr n \<and> custom_hash (StrKey s) = Inr (djb2_spec s)"
  by (simp add: djb2_spec_def custom_hash_loop_foldl)

section \<open>Keys of the wrong kind\<close>

text \<open>
  C10. For a key that is neither an integer nor text, put, get and delete all raise
  TypeError, and the container is as it was.
\<close>

theorem C10_type_rejection:
  "put h (OtherKey r) val = Some (Inl (TypeError, h))
   \<and> get h (OtherKey r) = Some (Inl TypeError)
   \<and> delete h (OtherKey r) = Some (Inl (TypeError, h))"
  by (simp add: put_def get_def delete_def get_pos_def raise_if_not_acceptable_key_def)

section \<open>Construction\<close>

text \<open>
  C6. A container built with the size 16 and the caller's hash function has the size
  8 and hashes with \<open>custom_hash\<close>: the key 5 is hashed to 5, not to 0, and is put in
  slot 5.
\<close>

theorem C6_init_ignores_arguments:
  "observe (Hash_init 16 zero_hash :: string Hash) = (8, 0, 0, replicate 8 None, replicate 8 None)
   \<and> h_hash (Hash_init 16 zero_hash :: string Hash) (IntKey 5) = Inr 5
   \<and> zero_hash (IntKey 5) = Inr 0
   \<and> observed (apply_operations (Hash_init 16 zero_hash) [Put (IntKey 5) (Some ''x'')])
       = Some ([Returned None], 8, 1, 0,
               [None, None, None, None, None, Some (IntKey 5), None, None],
               [None, None, None, None, None, Some ''x'', None, None])"
  by code_simp

section \<open>The walk of a put and the walk of the lookup\<close>

lemma get_pos_recursively_lookup:
  "get_pos_recursively h position key =
     (case probing h position of Inl e \<Rightarrow> Some (Inl e)
      | Inr new_position \<Rightarrow> lookup_from h new_position key)"
  by (subst get_pos_recursively.simps) (simp add: lookup_from_def split: sum.split)

lemma get_pos_lookup:
  "get_pos h key =
     (case raise_if_not_acceptable_key h key of
        Inl e \<Rightarrow> Some (Inl e)
      | Inr u \<Rightarrow>
          (case h_hash h key of
             Inl e \<Rightarrow> Some (Inl e)
           | Inr hashvalue \<Rightarrow>
               (case calculate_position h hashvalue of
                  Inl e \<Rightarrow> Some (Inl e)
                | Inr position \<Rightarrow> lookup_from h position key)))"
  by (simp add: get_pos_def lookup_from_def split: sum.split)

lemma set_item_at_pos_placed:
  "set_item_at_pos h q key val = Inr h' \<Longrightarrow>
     q < length (h_keys h) \<and> q < length (h_values h) \<and> h' = placed h q key val"
  by (auto simp: set_item_at_pos_def placed_def Let_def split: if_splits)

lemma probing_placed: "probing (placed h q key val) p = probing h p"
  by (simp add: probing_def placed_def)

lemma calculate_position_placed:
  "calculate_position (placed h q key val) hashvalue = calculate_position h hashvalue"
  by (simp add: calculate_position_def placed_def)

lemma lookup_from_placed_here:
  "q < length (h_keys h) \<Longrightarrow> lookup_from (placed h q key val) q key = Some (Inr q)"
  by (simp add: lookup_from_def placed_def)

lemma h_keys_placed: "h_keys (placed h q key val) = (h_keys h)[q := Some key]"
  by (simp add: placed_def)

text \<open>
  The walk of \<^verbatim>\<open>_set_item\<close> and the walk of the lookup read the same slots: the
  slots passed over hold other keys, and the write does not touch them.
\<close>

lemma set_item_placed_at:
  assumes "set_item h p key val = Some y"
  shows "placed_at h p key val y"
proof (rule set_item.raw_induct [where P = placed_at, OF _ assms])
  fix f :: "'v Hash \<Rightarrow> nat \<Rightarrow> key \<Rightarrow> 'v option \<Rightarrow> 'v outcome option"
  fix h position key val y
  assume IH: "\<And>h p key val y. f h p key val = Some y \<Longrightarrow> placed_at h p key val y"
  assume body: "(if position < length (h_keys h) then
        (let existing_key = h_keys h ! position in
         if existing_key = None \<or> existing_key = Some key then
           Some (set_item_at_pos h position key val)
         else
           (case probing h position of
              Inl e \<Rightarrow> Some (Inl (e, h))
            | Inr new_position \<Rightarrow> f h new_position key val))
      else Some (Inl (IndexError, h))) = Some y"
  show "placed_at h position key val y"
    unfolding placed_at_def
  proof (intro allI impI)
    fix h' assume y: "y = Inr h'"
    from body y have pos: "position < length (h_keys h)"
      by (auto split: if_splits)
    show "\<exists>q. written h position key val h' q"
    proof (cases "h_keys h ! position = None \<or> h_keys h ! position = Some key")
      case True
      with body y pos have "set_item_at_pos h position key val = Inr h'"
        by simp
      from set_item_at_pos_placed [OF this] True pos
      have "written h position key val h' position"
        by (auto simp: written_def lookup_from_placed_here) (auto simp: lookup_from_def)
      then show ?thesis ..
    next
      case False
      with body y pos obtain new_position where
        np: "probing h position = Inr new_position" and
        rec: "f h new_position key val = Some (Inr h')"
        by (auto split: sum.splits)
      from IH [OF rec] obtain q where q: "written h new_position key val h' q"
        unfolding placed_at_def by auto
      then have h': "h' = placed h q key val"
        and free: "h_keys h ! q = None \<or> h_keys h ! q = Some key"
        by (simp_all add: written_def)
      from False free have ne: "q \<noteq> position" by auto
      have old: "lookup_from h position key = lookup_from h new_position key"
        using False pos np
        by (subst lookup_from_def) (auto simp: get_pos_recursively_lookup Let_def)
      have "probing h' position = Inr new_position"
        using np h' by (simp add: probing_placed)
      moreover have "h_keys h' ! position = h_keys h ! position"
        using h' ne by (simp add: placed_def)
      moreover have "position < length (h_keys h')"
        using h' pos by (simp add: placed_def)
      ultimately have new: "lookup_from h' position key = lookup_from h' new_position key"
        using False
        by (subst lookup_from_def) (auto simp: get_pos_recursively_lookup Let_def)
      from q old new have "written h position key val h' q"
        unfolding written_def by metis
      then show ?thesis ..
    qed
  qed
qed

lemma set_item_written:
  assumes "set_item h p key val = Some (Inr h')"
  shows "\<exists>q. written h p key val h' q"
  using set_item_placed_at [OF assms] by (simp add: placed_at_def)

lemma set_item_fields:
  assumes "set_item h p key val = Some (Inr h')"
  shows "h_size h' = h_size h \<and> h_hash h' = h_hash h \<and> h_dummy_slots h' = h_dummy_slots h
         \<and> h_used_slots h' = h_used_slots h + 1
         \<and> length (h_keys h') = length (h_keys h) \<and> length (h_values h') = length (h_values h)"
proof -
  from set_item_written [OF assms] obtain q where "h' = placed h q key val"
    by (auto simp: written_def)
  then show ?thesis by (simp add: placed_def)
qed

lemma get_Inr:
  "get h key = Some (Inr w) \<longleftrightarrow>
     (\<exists>i. get_pos h key = Some (Inr i) \<and> i < length (h_values h) \<and> h_values h ! i = w)"
  by (auto simp: get_def split: option.splits sum.splits if_splits)

lemma set_item_home_get_pos:
  assumes "acceptable_key key" "h_hash h key = Inr hashvalue"
    "calculate_position h hashvalue = Inr p" "written h p key val h' q"
  shows "get_pos h key = (if h_keys h ! q = None then Some (Inl KeyError) else Some (Inr q))"
    and "get_pos h' key = Some (Inr q)"
proof -
  from assms(4) have h': "h' = placed h q key val" by (simp add: written_def)
  show "get_pos h key = (if h_keys h ! q = None then Some (Inl KeyError) else Some (Inr q))"
    using assms by (simp add: get_pos_lookup raise_if_not_acceptable_key_def written_def)
  have "h_hash h' key = Inr hashvalue"
    using assms(2) h' by (simp add: placed_def)
  moreover have "calculate_position h' hashvalue = Inr p"
    using assms(3) h' by (simp add: calculate_position_placed)
  moreover from assms(4) have "lookup_from h' p key = Some (Inr q)"
    unfolding written_def by blast
  ultimately show "get_pos h' key = Some (Inr q)"
    using assms(1) by (simp add: get_pos_lookup raise_if_not_acceptable_key_def)
qed

lemma set_item_home_get:
  assumes "acceptable_key key" "h_hash h key = Inr hashvalue"
    "calculate_position h hashvalue = Inr p" "set_item h p key val = Some (Inr h')"
  shows "get h' key = Some (Inr val)"
proof -
  from set_item_written [OF assms(4)] obtain q where q: "written h p key val h' q" ..
  from set_item_home_get_pos(2) [OF assms(1-3) q] q show ?thesis
    by (simp add: get_Inr written_def placed_def)
qed

lemma put_steps:
  assumes "put h key val = Some (Inr h')"
  obtains expand h1 hashvalue position where
    "acceptable_key key" "should_expand h = Inr expand"
    "(if expand then resize h else Some (Inr h)) = Some (Inr h1)"
    "h_hash h1 key = Inr hashvalue" "calculate_position h1 hashvalue = Inr position"
    "set_item h1 position key val = Some (Inr h')"
  using assms
  by (auto simp: put_def raise_if_not_acceptable_key_def split: sum.splits option.splits if_splits)

section \<open>Put, then get\<close>

text \<open>
  C1. If put(K, V) returns (the key is accepted and the walks of the put, those of a
  growth included, end), then get(K) on the resulting container returns V.
\<close>

theorem C1_round_trip:
  assumes "put h key val = Some (Inr h')"
  shows "get h' key = Some (Inr val)"
proof -
  from assms obtain h1 hashvalue position where
    "acceptable_key key" "h_hash h1 key = Inr hashvalue"
    "calculate_position h1 hashvalue = Inr position"
    "set_item h1 position key val = Some (Inr h')"
    by (rule put_steps)
  then show ?thesis by (rule set_item_home_get)
qed

theorem C1_round_trip_witness:
  "put (Hash_init 8 custom_hash) (StrKey ''a'') (Some ''x'')
     = Some (Inr (placed (Hash_init 8 custom_hash) 6 (StrKey ''a'') (Some ''x'')))
   \<and> get (placed (Hash_init 8 custom_hash) 6 (StrKey ''a'') (Some ''x'')) (StrKey ''a'')
     = Some (Inr (Some ''x''))"
proof -
  have hyp: "put (Hash_init 8 custom_hash) (StrKey ''a'') (Some ''x'')
     = Some (Inr (placed (Hash_init 8 custom_hash) 6 (StrKey ''a'') (Some ''x'')))"
    by (simp add: put_def Hash_init_def raise_if_not_acceptable_key_def should_expand_def
        calculate_position_def set_item.simps set_item_at_pos_def placed_def)
  from hyp C1_round_trip [OF hyp] show ?thesis by simp
qed

section \<open>The counters\<close>

text \<open>
  A put of a key that the container holds, on a container that does not grow, writes
  the slot the key is in and counts one more used slot. A delete that returns counts
  one more deleted key and leaves the counter of used slots as it is.
\<close>

lemma put_again_counts:
  assumes "put h key val1 = Some (Inr h1)" "should_expand h1 = Inr False"
    "put h1 key val2 = Some (Inr h2)"
  shows "h_keys h2 = h_keys h1 \<and> h_used_slots h2 = h_used_slots h1 + 1
         \<and> get h2 key = Some (Inr val2)"
proof -
  from assms(1) obtain h0 hashvalue0 position0 where
    a: "acceptable_key key" "h_hash h0 key = Inr hashvalue0"
       "calculate_position h0 hashvalue0 = Inr position0"
       "set_item h0 position0 key val1 = Some (Inr h1)"
    by (rule put_steps)
  from set_item_written [OF a(4)] obtain q where q: "written h0 position0 key val1 h1 q" ..
  from set_item_home_get_pos(2) [OF a(1-3) q] have found: "get_pos h1 key = Some (Inr q)" .
  from assms(3) obtain expand h1' hashvalue position where
    b: "should_expand h1 = Inr expand"
       "(if expand then resize h1 else Some (Inr h1)) = Some (Inr h1')"
       "h_hash h1' key = Inr hashvalue" "calculate_position h1' hashvalue = Inr position"
       "set_item h1' position key val2 = Some (Inr h2)"
    by (rule put_steps)
  with assms(2) have same: "h1' = h1" by simp
  from set_item_written [OF b(5)] same obtain q' where
    q': "written h1 position key val2 h2 q'" by auto
  from set_item_home_get_pos(1) [OF a(1) b(3,4) [unfolded same] q'] found
  have "h_keys h1 ! q' = Some key"
    using q' by (auto simp: written_def split: if_splits)
  moreover from q' have "h2 = placed h1 q' key val2" by (simp add: written_def)
  ultimately have "h_keys h2 = h_keys h1" "h_used_slots h2 = h_used_slots h1 + 1"
    using list_update_id [of "h_keys h1" q'] by (simp_all add: placed_def)
  moreover from set_item_home_get [OF a(1) b(3,4,5)] have "get h2 key = Some (Inr val2)" .
  ultimately show ?thesis by simp
qed

lemma delete_counts:
  "delete h key = Some (Inr h') \<Longrightarrow>
     h_used_slots h' = h_used_slots h \<and> h_dummy_slots h' = h_dummy_slots h + 1
     \<and> h_size h' = h_size h"
  by (auto simp: delete_def delete_item_def Let_def split: option.splits sum.splits if_splits)

text \<open>
  C2. On a new container, put(1, "a") and then put(1, "b"): get(1) returns "b", and
  the counter of used slots is 2 after the two calls, with one slot in use.
\<close>

theorem C2_overwrite_counts_again:
  "observed (apply_operations (Hash_init 8 custom_hash)
      [Put (IntKey 1) (Some ''a''), Put (IntKey 1) (Some ''b''), Get (IntKey 1)])
   = Some ([Returned None, Returned None, Returned (Some ''b'')], 8, 2, 0,
           [None, Some (IntKey 1), None, None, None, None, None, None],
           [None, Some ''b'', None, None, None, None, None, None])"
  by code_simp

text \<open>
  C4. On a new container, six keys are put and three of them deleted: the counter of
  used slots is 6 and the counter of deleted keys 3, together 9, in a container of
  size 8.
\<close>

theorem C4_counters_exceed_size:
  "observed (apply_operations (Hash_init 8 custom_hash)
      [Put (IntKey 0) (Some ''a''), Put (IntKey 1) (Some ''b''), Put (IntKey 2) (Some ''c''),
       Put (IntKey 3) (Some ''d''), Put (IntKey 4) (Some ''e''), Put (IntKey 5) (Some ''f''),
       Delete (IntKey 0), Delete (IntKey 1), Delete (IntKey 2)])
   = Some ([Returned None, Returned None, Returned None, Returned None, Returned None,
            Returned None, Returned None, Returned None, Returned None], 8, 6, 3,
           [None, None, None, Some (IntKey 3), Some (IntKey 4), Some (IntKey 5), None, None],
           [None, None, None, Some ''d'', Some ''e'', Some ''f'', None, None])"
  by code_simp

section \<open>Deletion\<close>

lemma probing_removed: "probing (removed h q) p = probing h p"
  by (simp add: probing_def removed_def)

lemma h_keys_removed: "h_keys (removed h q) = (h_keys h)[q := None]"
  by (simp add: removed_def)

lemma calculate_position_removed:
  "calculate_position (removed h q) hashvalue = calculate_position h hashvalue"
  by (simp add: calculate_position_def removed_def)

lemma delete_item_removed:
  "delete_item h q key = Inr h' \<Longrightarrow>
     q < length (h_keys h) \<and> q < length (h_values h) \<and> h' = removed h q"
  by (auto simp: delete_item_def removed_def Let_def split: if_splits)

lemma get_pos_recursively_cut:
  assumes "get_pos_recursively h p key = Some y"
  shows "found_then_cut h p key y"
proof (rule get_pos_recursively.raw_induct [where P = found_then_cut, OF _ assms])
  fix f :: "'v Hash \<Rightarrow> nat \<Rightarrow> key \<Rightarrow> (error + nat) option"
  fix h position key y
  assume IH: "\<And>h p key y. f h p key = Some y \<Longrightarrow> found_then_cut h p key y"
  assume body: "(case probing h position of
        Inl e \<Rightarrow> Some (Inl e)
      | Inr new_position \<Rightarrow>
          (if new_position < length (h_keys h) then
             (let tmp_key = h_keys h ! new_position in
              if tmp_key = None then Some (Inl KeyError)
              else if tmp_key \<noteq> Some key then f h new_position key
              else Some (Inr new_position))
           else Some (Inl IndexError))) = Some y"
  show "found_then_cut h position key y"
    unfolding found_then_cut_def
  proof (intro allI impI)
    fix q assume y: "y = Inr q"
    from body y obtain np where
      np: "probing h position = Inr np" "np < length (h_keys h)" "h_keys h ! np \<noteq> None"
      by (auto split: sum.splits if_splits simp: Let_def)
    show "q < length (h_keys h) \<and> h_keys h ! q = Some key
        \<and> get_pos_recursively (removed h q) position key = Some (Inl KeyError)"
    proof (cases "h_keys h ! np = Some key")
      case True
      with body y np have "q = np" by simp
      with True np show ?thesis
        by (subst get_pos_recursively.simps) (simp add: probing_removed h_keys_removed Let_def)
    next
      case False
      with body y np have "f h np key = Some (Inr q)" by simp
      from IH [OF this] have
        q: "q < length (h_keys h)" "h_keys h ! q = Some key"
           "get_pos_recursively (removed h q) np key = Some (Inl KeyError)"
        unfolding found_then_cut_def by auto
      from q(2) False have "q \<noteq> np" by auto
      with np False q show ?thesis
        by (subst get_pos_recursively.simps) (simp add: probing_removed h_keys_removed Let_def)
    qed
  qed
qed

lemma get_pos_cut:
  assumes "get_pos h key = Some (Inr q)"
  shows "q < length (h_keys h) \<and> h_keys h ! q = Some key
         \<and> get_pos (removed h q) key = Some (Inl KeyError)"
proof -
  from assms obtain hashvalue position where
    acc: "raise_if_not_acceptable_key h key = Inr ()" and
    hv: "h_hash h key = Inr hashvalue" and
    cp: "calculate_position h hashvalue = Inr position" and
    pos: "position < length (h_keys h)" "h_keys h ! position \<noteq> None"
    by (auto simp: get_pos_def Let_def split: sum.splits if_splits)
  have acc': "raise_if_not_acceptable_key (removed h q) key = Inr ()"
    using acc by (simp add: raise_if_not_acceptable_key_def)
  have hv': "h_hash (removed h q) key = Inr hashvalue"
    using hv by (simp add: removed_def)
  have cp': "calculate_position (removed h q) hashvalue = Inr position"
    using cp by (simp add: calculate_position_removed)
  show ?thesis
  proof (cases "h_keys h ! position = Some key")
    case True
    with assms acc hv cp pos have "q = position"
      by (simp add: get_pos_def)
    with True pos acc' hv' cp' show ?thesis
      by (simp add: get_pos_def h_keys_removed)
  next
    case False
    with assms acc hv cp pos have "get_pos_recursively h position key = Some (Inr q)"
      by (simp add: get_pos_def)
    from get_pos_recursively_cut [OF this] have
      q: "q < length (h_keys h)" "h_keys h ! q = Some key"
         "get_pos_recursively (removed h q) position key = Some (Inl KeyError)"
      unfolding found_then_cut_def by auto
    from q(2) False have "q \<noteq> position" by auto
    with q pos False acc' hv' cp' show ?thesis
      by (simp add: get_pos_def h_keys_removed Let_def)
  qed
qed

lemma get_pos_found:
  assumes "get_pos h key = Some (Inr i)"
  shows "i < length (h_keys h) \<and> h_keys h ! i = Some key \<and> acceptable_key key"
proof -
  have "acceptable_key key"
    using assms by (auto simp: get_pos_def raise_if_not_acceptable_key_def split: if_splits)
  with get_pos_cut [OF assms] show ?thesis by simp
qed

text \<open>
  A delete that returns has cleared the slot at which the lookup found the key, and
  a get or a second delete of the key then raises KeyError. So does a delete that
  follows a put of the key.
\<close>

lemma delete_then_get:
  assumes "delete h key = Some (Inr h')"
  shows "\<exists>q. get_pos h key = Some (Inr q) \<and> h_keys h ! q = Some key \<and> h' = removed h q
           \<and> get h' key = Some (Inl KeyError)
           \<and> delete h' key = Some (Inl (KeyError, h'))"
proof -
  from assms obtain q where
    gp: "get_pos h key = Some (Inr q)" and di: "delete_item h q key = Inr h'"
    by (auto simp: delete_def split: option.splits sum.splits)
  from delete_item_removed [OF di] have h': "h' = removed h q" by simp
  from get_pos_cut [OF gp] h' gp show ?thesis
    by (simp add: get_def delete_def)
qed

lemma put_delete_get:
  assumes "put h key val = Some (Inr h1)"
  shows "\<exists>h2. delete h1 key = Some (Inr h2) \<and> get h2 key = Some (Inl KeyError)"
proof -
  from assms obtain h0 hashvalue position where
    s: "acceptable_key key" "h_hash h0 key = Inr hashvalue"
       "calculate_position h0 hashvalue = Inr position"
       "set_item h0 position key val = Some (Inr h1)"
    by (rule put_steps)
  from set_item_written [OF s(4)] obtain q where q: "written h0 position key val h1 q" ..
  from set_item_home_get_pos(2) [OF s(1-3) q] have gp: "get_pos h1 key = Some (Inr q)" .
  from q have "q < length (h_keys h1)" "q < length (h_values h1)"
    by (simp_all add: written_def placed_def)
  with gp have d: "delete h1 key = Some (Inr (removed h1 q))"
    by (simp add: delete_def delete_item_def removed_def)
  from delete_then_get [OF this] d show ?thesis by auto
qed

text \<open>
  With the keys 0, 2, 4 and 6 in the table of size 8, the walk for the key 8 steps
  from an even slot to an even slot, all of them taken: it returns nothing.
\<close>

lemma even_slots_full_stuck:
  assumes "get_pos_recursively h p key = Some y"
  shows "\<not> even_slots_full h p key"
proof (rule get_pos_recursively.raw_induct
    [where P = "\<lambda>h p key y. \<not> even_slots_full h p key", OF _ assms])
  fix f :: "'a Hash \<Rightarrow> nat \<Rightarrow> key \<Rightarrow> (error + nat) option"
  fix h position key y
  assume IH: "\<And>h p key y. f h p key = Some y \<Longrightarrow> \<not> even_slots_full h p key"
  assume body: "(case probing h position of
        Inl e \<Rightarrow> Some (Inl e)
      | Inr new_position \<Rightarrow>
          (if new_position < length (h_keys h) then
             (let tmp_key = h_keys h ! new_position in
              if tmp_key = None then Some (Inl KeyError)
              else if tmp_key \<noteq> Some key then f h new_position key
              else Some (Inr new_position))
           else Some (Inl IndexError))) = Some y"
  show "\<not> even_slots_full h position key"
  proof
    assume a: "even_slots_full h position key"
    then consider "position = 0" | "position = 2" | "position = 4" | "position = 6"
      by (auto simp: even_slots_full_def)
    then obtain np where "f h np key = Some y" "np \<in> {0, 2, 4, 6::nat}"
      using body a by cases (simp_all add: probing_def even_slots_full_def)
    with IH a show False by (auto simp: even_slots_full_def)
  qed
qed

lemma apply_operations_snoc:
  "apply_operations h (cs @ [c]) =
     (case apply_operations h cs of
        None \<Rightarrow> None
      | Some (rs, h1) \<Rightarrow>
          (case apply_operation h1 c of
             None \<Rightarrow> None
           | Some (r, h2) \<Rightarrow> Some (rs @ [r], h2)))"
  by (induction cs arbitrary: h) (auto split: option.splits)

text \<open>
  C9. With the key 8 put behind the key 0 and the key 0 deleted, the key 8 is in
  slot 6 and delete(8) raises KeyError and resets nothing. With the keys 0, 2, 4 and
  6 in a container of size 8, the walk of delete(8) for the absent key 8 goes round
  the slots 0, 6, 4, 2 and never returns: no KeyError is raised.
\<close>

theorem C9_delete_misses:
  "observed (apply_operations (Hash_init 8 custom_hash)
      [Put (IntKey 0) (Some ''x''), Put (IntKey 8) (Some ''a''), Delete (IntKey 0),
       Delete (IntKey 8)])
   = Some ([Returned None, Returned None, Returned None, Raised KeyError], 8, 2, 1,
           [None, None, None, None, None, None, Some (IntKey 8), None],
           [None, None, None, None, None, None, Some ''a'', None])
   \<and> observed (apply_operations (Hash_init 8 custom_hash)
      [Put (IntKey 0) (Some ''a''), Put (IntKey 2) (Some ''b''), Put (IntKey 4) (Some ''c''),
       Put (IntKey 6) (Some ''d'')])
   = Some ([Returned None, Returned None, Returned None, Returned None], 8, 4, 0,
           [Some (IntKey 0), None, Some (IntKey 2), None, Some (IntKey 4), None,
            Some (IntKey 6), None],
           [Some ''a'', None, Some ''b'', None, Some ''c'', None, Some ''d'', None])
   \<and> apply_operations (Hash_init 8 custom_hash)
      [Put (IntKey 0) (Some ''a''), Put (IntKey 2) (Some ''b''), Put (IntKey 4) (Some ''c''),
       Put (IntKey 6) (Some ''d''), Delete (IntKey 8)] = None"
proof -
  let ?puts = "[Put (IntKey 0) (Some ''a''), Put (IntKey 2) (Some ''b''),
       Put (IntKey 4) (Some ''c''), Put (IntKey 6) (Some ''d'')]"
  let ?h0 = "Hash_init 8 custom_hash :: string Hash"
  have first: "observed (apply_operations ?h0
      [Put (IntKey 0) (Some ''x''), Put (IntKey 8) (Some ''a''), Delete (IntKey 0),
       Delete (IntKey 8)])
   = Some ([Returned None, Returned None, Returned None, Raised KeyError], 8, 2, 1,
           [None, None, None, None, None, None, Some (IntKey 8), None],
           [None, None, None, None, None, None, Some ''a'', None])"
    by code_simp
  have obs: "observed (apply_operations ?h0 ?puts)
      = Some ([Returned None, Returned None, Returned None, Returned None], 8, 4, 0,
           [Some (IntKey 0), None, Some (IntKey 2), None, Some (IntKey 4), None,
            Some (IntKey 6), None],
           [Some ''a'', None, Some ''b'', None, Some ''c'', None, Some ''d'', None])"
    by code_simp
  have hash8: "map_option (\<lambda>r. h_hash (snd r) (IntKey 8)) (apply_operations ?h0 ?puts)
      = Some (Inr 8)"
    by code_simp
  from obs hash8 obtain rs h4 where
    run: "apply_operations ?h0 ?puts = Some (rs, h4)" and
    h4: "h_size h4 = 8"
        "h_keys h4 = [Some (IntKey 0), None, Some (IntKey 2), None, Some (IntKey 4), None,
            Some (IntKey 6), None]"
        "h_hash h4 (IntKey 8) = Inr 8"
    by (auto simp: observed_def observe_def)
  have "get_pos_recursively h4 0 (IntKey 8) = None"
  proof (cases "get_pos_recursively h4 0 (IntKey 8)")
    case (Some y)
    from even_slots_full_stuck [OF this] h4 show ?thesis
      by (simp add: even_slots_full_def)
  qed simp
  with h4 have "get_pos h4 (IntKey 8) = None"
    by (simp add: get_pos_def raise_if_not_acceptable_key_def calculate_position_def)
  then have "apply_operation h4 (Delete (IntKey 8)) = None"
    by (simp add: delete_def)
  with run have "apply_operations ?h0 (?puts @ [Delete (IntKey 8)]) = None"
    by (simp only: apply_operations_snoc option.case prod.case)
  with first obs show ?thesis by simp
qed

section \<open>Keys found at their slots\<close>

lemma h_keys_placed_nth:
  assumes "h_keys h ! q = None \<or> h_keys h ! q = Some key" "j < length (h_keys h)"
    "h_keys h ! j \<noteq> None"
  shows "h_keys (placed h q key val) ! j = h_keys h ! j"
  using assms by (cases "j = q") (auto simp: h_keys_placed)

lemma get_pos_recursively_unmoved:
  assumes "get_pos_recursively h p key' = Some y"
  shows "unmoved h p key' y"
proof (rule get_pos_recursively.raw_induct [where P = unmoved, OF _ assms])
  fix f :: "'v Hash \<Rightarrow> nat \<Rightarrow> key \<Rightarrow> (error + nat) option"
  fix h position key' y
  assume IH: "\<And>h p key' y. f h p key' = Some y \<Longrightarrow> unmoved h p key' y"
  assume body: "(case probing h position of
        Inl e \<Rightarrow> Some (Inl e)
      | Inr new_position \<Rightarrow>
          (if new_position < length (h_keys h) then
             (let tmp_key = h_keys h ! new_position in
              if tmp_key = None then Some (Inl KeyError)
              else if tmp_key \<noteq> Some key' then f h new_position key'
              else Some (Inr new_position))
           else Some (Inl IndexError))) = Some y"
  show "unmoved h position key' y"
    unfolding unmoved_def
  proof (intro allI impI, elim conjE)
    fix i q key and val :: "'v option"
    assume y: "y = Inr i" and ne: "key \<noteq> key'"
      and free: "h_keys h ! q = None \<or> h_keys h ! q = Some key"
    from body y obtain np where
      np: "probing h position = Inr np" "np < length (h_keys h)" "h_keys h ! np \<noteq> None"
      by (auto split: sum.splits if_splits simp: Let_def)
    have same: "h_keys (placed h q key val) ! np = h_keys h ! np"
      using h_keys_placed_nth [OF free np(2,3)] .
    have len: "np < length (h_keys (placed h q key val))"
      using np(2) by (simp add: h_keys_placed)
    show "get_pos_recursively (placed h q key val) position key' = Some (Inr i)"
    proof (cases "h_keys h ! np = Some key'")
      case True
      with body y np have "i = np" by simp
      with True np same len show ?thesis
        by (subst get_pos_recursively.simps) (simp add: probing_placed)
    next
      case False
      with body y np have "f h np key' = Some (Inr i)" by simp
      from IH [OF this] ne free
      have "get_pos_recursively (placed h q key val) np key' = Some (Inr i)"
        unfolding unmoved_def by blast
      with np False same len show ?thesis
        by (subst get_pos_recursively.simps) (simp add: probing_placed Let_def)
    qed
  qed
qed

lemma get_pos_placed_other:
  assumes "get_pos h key' = Some (Inr i)" "key \<noteq> key'"
    "h_keys h ! q = None \<or> h_keys h ! q = Some key"
  shows "get_pos (placed h q key val) key' = Some (Inr i)"
proof -
  let ?h' = "placed h q key val"
  from assms(1) obtain hashvalue position where
    acc: "raise_if_not_acceptable_key h key' = Inr ()" and
    hv: "h_hash h key' = Inr hashvalue" and
    cp: "calculate_position h hashvalue = Inr position" and
    pos: "position < length (h_keys h)" "h_keys h ! position \<noteq> None"
    by (auto simp: get_pos_def Let_def split: sum.splits if_splits)
  have acc': "raise_if_not_acceptable_key ?h' key' = Inr ()"
    using acc by (simp add: raise_if_not_acceptable_key_def)
  have hv': "h_hash ?h' key' = Inr hashvalue"
    using hv by (simp add: placed_def)
  have cp': "calculate_position ?h' hashvalue = Inr position"
    using cp by (simp add: calculate_position_placed)
  have same: "h_keys ?h' ! position = h_keys h ! position"
    using h_keys_placed_nth [OF assms(3) pos] .
  have len: "position < length (h_keys ?h')"
    using pos(1) by (simp add: h_keys_placed)
  show ?thesis
  proof (cases "h_keys h ! position = Some key'")
    case True
    with assms(1) acc hv cp pos have "i = position"
      by (simp add: get_pos_def)
    with True acc' hv' cp' same len show ?thesis
      by (simp add: get_pos_def)
  next
    case False
    with assms(1) acc hv cp pos have "get_pos_recursively h position key' = Some (Inr i)"
      by (simp add: get_pos_def)
    from get_pos_recursively_unmoved [OF this] assms(2,3)
    have "get_pos_recursively ?h' position key' = Some (Inr i)"
      unfolding unmoved_def by blast
    with False pos acc' hv' cp' same len show ?thesis
      by (simp add: get_pos_def Let_def)
  qed
qed

lemma set_item_keeps_get_pos:
  assumes "set_item h p key val = Some (Inr h')" "key \<noteq> key'" "get_pos h key' = Some (Inr i)"
  shows "get_pos h' key' = Some (Inr i) \<and> h_values h' ! i = h_values h ! i
         \<and> length (h_values h') = length (h_values h)"
proof -
  from set_item_written [OF assms(1)] obtain q where
    h': "h' = placed h q key val" and free: "h_keys h ! q = None \<or> h_keys h ! q = Some key"
    by (auto simp: written_def)
  from get_pos_found [OF assms(3)] have "h_keys h ! i = Some key'" by simp
  with free assms(2) have "q \<noteq> i" by auto
  with h' get_pos_placed_other [OF assms(3,2) free] show ?thesis
    by (simp add: placed_def)
qed

lemma set_item_keeps_get:
  assumes "set_item h p key val = Some (Inr h')" "key \<noteq> key'" "get h key' = Some (Inr w)"
  shows "get h' key' = Some (Inr w)"
  using assms(3) set_item_keeps_get_pos [OF assms(1,2)] by (auto simp: get_Inr)

lemma set_item_home_slots_found:
  assumes "slots_found h" "acceptable_key key" "h_hash h key = Inr hashvalue"
    "calculate_position h hashvalue = Inr p" "set_item h p key val = Some (Inr h')"
  shows "slots_found h'"
  unfolding slots_found_def
proof (intro allI impI, elim conjE)
  fix i k assume i: "i < length (h_keys h')" and k: "h_keys h' ! i = Some k"
  from set_item_written [OF assms(5)] obtain q where q: "written h p key val h' q" ..
  then have h': "h' = placed h q key val"
    and free: "h_keys h ! q = None \<or> h_keys h ! q = Some key"
    and ql: "q < length (h_keys h)"
    by (simp_all add: written_def)
  note gp = set_item_home_get_pos [OF assms(2-4) q]
  show "get_pos h' k = Some (Inr i)"
  proof (cases "i = q")
    case True
    with k h' ql have "k = key" by (simp add: h_keys_placed)
    with gp(2) True show ?thesis by simp
  next
    case False
    with i k h' have il: "i < length (h_keys h)" and ik: "h_keys h ! i = Some k"
      by (simp_all add: h_keys_placed)
    with assms(1) have old: "get_pos h k = Some (Inr i)"
      by (simp add: slots_found_def)
    have "key \<noteq> k"
    proof
      assume "key = k"
      with old gp(1) False show False by (simp split: if_splits)
    qed
    from get_pos_placed_other [OF old this free] h' show ?thesis by simp
  qed
qed

lemma slots_found_unique:
  assumes "slots_found h" "i < length (h_keys h)" "j < length (h_keys h)"
    "h_keys h ! i = Some k" "h_keys h ! j = Some k"
  shows "i = j"
proof -
  from assms(1,2,4) have "get_pos h k = Some (Inr i)"
    unfolding slots_found_def by blast
  moreover from assms(1,3,5) have "get_pos h k = Some (Inr j)"
    unfolding slots_found_def by blast
  ultimately show ?thesis by simp
qed

lemma slots_found_init: "slots_found (Hash_init size_arg hashfunction)"
  by (auto simp: slots_found_def Hash_init_def)

text \<open>
  \<^verbatim>\<open>_reposition\<close>, one key at a time.
\<close>

lemma reposition_step:
  assumes "reposition h ((Some key, val) # rest) = Some (Inr h')"
  obtains hashvalue position h1 where
    "h_hash h key = Inr hashvalue" "calculate_position h hashvalue = Inr position"
    "set_item h position key val = Some (Inr h1)" "reposition h1 rest = Some (Inr h')"
  using assms by (auto split: sum.splits option.splits)

lemma reposition_fields:
  "reposition h kvs = Some (Inr h') \<Longrightarrow>
     h_size h' = h_size h \<and> h_hash h' = h_hash h \<and> h_dummy_slots h' = h_dummy_slots h
     \<and> length (h_keys h') = length (h_keys h) \<and> length (h_values h') = length (h_values h)"
proof (induction h kvs rule: reposition.induct)
  case (1 h)
  then show ?case by simp
next
  case (2 h val rest)
  then show ?case by simp
next
  case (3 h key val rest)
  from "3.prems" obtain hashvalue position h1 where
    s: "h_hash h key = Inr hashvalue" "calculate_position h hashvalue = Inr position"
       "set_item h position key val = Some (Inr h1)" "reposition h1 rest = Some (Inr h')"
    by (rule reposition_step)
  from "3.IH" [OF s(1,2) s(3) refl s(4)] set_item_fields [OF s(3)] show ?case by simp
qed

lemma reposition_used_slots:
  "reposition h kvs = Some (Inr h') \<Longrightarrow>
     h_used_slots h' = h_used_slots h + length (stored_keys kvs)"
proof (induction h kvs rule: reposition.induct)
  case (1 h)
  then show ?case by simp
next
  case (2 h val rest)
  then show ?case by simp
next
  case (3 h key val rest)
  from "3.prems" obtain hashvalue position h1 where
    s: "h_hash h key = Inr hashvalue" "calculate_position h hashvalue = Inr position"
       "set_item h position key val = Some (Inr h1)" "reposition h1 rest = Some (Inr h')"
    by (rule reposition_step)
  from "3.IH" [OF s(1,2) s(3) refl s(4)] set_item_fields [OF s(3)] show ?case by simp
qed

lemma stored_keys_set: "set (stored_keys kvs) = {k. \<exists>v. (Some k, v) \<in> set kvs}"
  by (induction kvs rule: stored_keys.induct) auto

lemma reposition_keeps_get:
  "reposition h kvs = Some (Inr h') \<Longrightarrow> key' \<notin> set (stored_keys kvs) \<Longrightarrow>
     get h key' = Some (Inr w) \<Longrightarrow> get h' key' = Some (Inr w)"
proof (induction h kvs rule: reposition.induct)
  case (1 h)
  then show ?case by simp
next
  case (2 h val rest)
  then show ?case by simp
next
  case (3 h key val rest)
  from "3.prems"(1) obtain hashvalue position h1 where
    s: "h_hash h key = Inr hashvalue" "calculate_position h hashvalue = Inr position"
       "set_item h position key val = Some (Inr h1)" "reposition h1 rest = Some (Inr h')"
    by (rule reposition_step)
  from "3.prems"(2) have ne: "key \<noteq> key'" and rest: "key' \<notin> set (stored_keys rest)"
    by auto
  from set_item_keeps_get [OF s(3) ne "3.prems"(3)] have "get h1 key' = Some (Inr w)" .
  from "3.IH" [OF s(1,2) s(3) refl s(4) rest this] show ?case .
qed

lemma reposition_gets:
  "reposition h kvs = Some (Inr h') \<Longrightarrow> distinct (stored_keys kvs) \<Longrightarrow>
     (Some key', w) \<in> set kvs \<Longrightarrow> acceptable_key key' \<Longrightarrow> get h' key' = Some (Inr w)"
proof (induction h kvs rule: reposition.induct)
  case (1 h)
  then show ?case by simp
next
  case (2 h val rest)
  then show ?case by simp
next
  case (3 h key val rest)
  from "3.prems"(1) obtain hashvalue position h1 where
    s: "h_hash h key = Inr hashvalue" "calculate_position h hashvalue = Inr position"
       "set_item h position key val = Some (Inr h1)" "reposition h1 rest = Some (Inr h')"
    by (rule reposition_step)
  from "3.prems"(2) have fresh: "key \<notin> set (stored_keys rest)"
    and dist: "distinct (stored_keys rest)"
    by simp_all
  show ?case
  proof (cases "(Some key', w) \<in> set rest")
    case True
    from "3.IH" [OF s(1,2) s(3) refl s(4) dist True "3.prems"(4)] show ?thesis .
  next
    case False
    with "3.prems"(3) have eq: "key' = key" "w = val" by auto
    with "3.prems"(4) have "get h1 key = Some (Inr val)"
      using set_item_home_get [OF _ s(1,2,3)] by simp
    from reposition_keeps_get [OF s(4) fresh this] eq show ?thesis by simp
  qed
qed

lemma reposition_slots_found:
  "reposition h kvs = Some (Inr h') \<Longrightarrow> slots_found h \<Longrightarrow>
     \<forall>k \<in> set (stored_keys kvs). acceptable_key k \<Longrightarrow> slots_found h'"
proof (induction h kvs rule: reposition.induct)
  case (1 h)
  then show ?case by simp
next
  case (2 h val rest)
  then show ?case by simp
next
  case (3 h key val rest)
  from "3.prems"(1) obtain hashvalue position h1 where
    s: "h_hash h key = Inr hashvalue" "calculate_position h hashvalue = Inr position"
       "set_item h position key val = Some (Inr h1)" "reposition h1 rest = Some (Inr h')"
    by (rule reposition_step)
  from "3.prems"(3) have acc: "acceptable_key key"
    and rest: "\<forall>k \<in> set (stored_keys rest). acceptable_key k"
    by simp_all
  from set_item_home_slots_found [OF "3.prems"(2) acc s(1,2,3)] have "slots_found h1" .
  from "3.IH" [OF s(1,2) s(3) refl s(4) this rest] show ?case .
qed

lemma stored_keys_zip_nth:
  "k \<in> set (stored_keys (zip ks vs)) \<Longrightarrow> \<exists>i. i < length ks \<and> i < length vs \<and> ks ! i = Some k"
  by (auto simp: stored_keys_set in_set_zip)

lemma distinct_stored_keys:
  "(\<And>i j k. i < length kvs \<Longrightarrow> j < length kvs \<Longrightarrow> fst (kvs ! i) = Some k \<Longrightarrow>
       fst (kvs ! j) = Some k \<Longrightarrow> i = j) \<Longrightarrow> distinct (stored_keys kvs)"
proof (induction kvs rule: stored_keys.induct)
  case 1
  then show ?case by simp
next
  case (2 val rest)
  have "distinct (stored_keys rest)"
  proof (rule "2.IH")
    fix i j k
    assume "i < length rest" "j < length rest" "fst (rest ! i) = Some k" "fst (rest ! j) = Some k"
    with "2.prems" [of "Suc i" "Suc j" k] show "i = j" by simp
  qed
  then show ?case by simp
next
  case (3 key val rest)
  have "distinct (stored_keys rest)"
  proof (rule "3.IH")
    fix i j k
    assume "i < length rest" "j < length rest" "fst (rest ! i) = Some k" "fst (rest ! j) = Some k"
    with "3.prems" [of "Suc i" "Suc j" k] show "i = j" by simp
  qed
  moreover have "key \<notin> set (stored_keys rest)"
  proof
    assume "key \<in> set (stored_keys rest)"
    then obtain v where "(Some key, v) \<in> set rest" by (auto simp: stored_keys_set)
    then obtain j where "j < length rest" "rest ! j = (Some key, v)"
      by (auto simp: in_set_conv_nth)
    with "3.prems" [of 0 "Suc j" key] show False by simp
  qed
  ultimately show ?case by simp
qed

lemma slots_found_stored_keys:
  assumes "slots_found h"
  shows "distinct (stored_keys (zip (h_keys h) (h_values h)))"
    and "\<forall>k \<in> set (stored_keys (zip (h_keys h) (h_values h))). acceptable_key k"
proof -
  show "distinct (stored_keys (zip (h_keys h) (h_values h)))"
  proof (rule distinct_stored_keys)
    fix i j k
    assume "i < length (zip (h_keys h) (h_values h))" "j < length (zip (h_keys h) (h_values h))"
      "fst (zip (h_keys h) (h_values h) ! i) = Some k"
      "fst (zip (h_keys h) (h_values h) ! j) = Some k"
    then show "i = j"
      using slots_found_unique [OF assms, of i j k] by simp
  qed
  show "\<forall>k \<in> set (stored_keys (zip (h_keys h) (h_values h))). acceptable_key k"
  proof
    fix k assume "k \<in> set (stored_keys (zip (h_keys h) (h_values h)))"
    from stored_keys_zip_nth [OF this] obtain i where
      "i < length (h_keys h)" "h_keys h ! i = Some k" by blast
    with assms have "get_pos h k = Some (Inr i)" unfolding slots_found_def by blast
    from get_pos_found [OF this] show "acceptable_key k" by simp
  qed
qed

text \<open>
  A put keeps every key found at its slot, whether it grows the container or not,
  and keeps the values of the other keys. A new container has the property, and a
  get changes nothing: it takes a delete to lose it.
\<close>

lemma resize_reposition:
  "resize h = reposition (emptied h) (zip (h_keys h) (h_values h))"
  by (simp add: resize_def emptied_def Let_def)

lemma slots_found_emptied: "slots_found (emptied h)"
  by (auto simp: slots_found_def emptied_def)

lemma put_slots_found:
  assumes "slots_found h" "put h key val = Some (Inr h')"
  shows "slots_found h'"
proof -
  from assms(2) obtain expand h1 and hashvalue :: int and position where
    s: "acceptable_key key" "should_expand h = Inr expand"
       "(if expand then resize h else Some (Inr h)) = Some (Inr h1)"
       "h_hash h1 key = Inr hashvalue" "calculate_position h1 hashvalue = Inr position"
       "set_item h1 position key val = Some (Inr h')"
    by (rule put_steps)
  have "slots_found h1"
  proof (cases expand)
    case True
    with s(3) have "reposition (emptied h) (zip (h_keys h) (h_values h)) = Some (Inr h1)"
      by (simp add: resize_reposition)
    from reposition_slots_found
      [OF this slots_found_emptied slots_found_stored_keys(2) [OF assms(1)]]
    show ?thesis .
  next
    case False
    with s(3) assms(1) show ?thesis by simp
  qed
  from set_item_home_slots_found [OF this s(1,4,5,6)] show ?thesis .
qed

lemma put_keeps_others:
  assumes "slots_found h" "put h key val = Some (Inr h')" "k \<noteq> key"
    "get h k = Some (Inr w)"
  shows "get h' k = Some (Inr w)"
proof -
  from assms(2) obtain expand h1 and hashvalue :: int and position where
    s: "should_expand h = Inr expand"
       "(if expand then resize h else Some (Inr h)) = Some (Inr h1)"
       "set_item h1 position key val = Some (Inr h')"
    by (rule put_steps)
  have "get h1 k = Some (Inr w)"
  proof (cases expand)
    case True
    with s(2) have r: "reposition (emptied h) (zip (h_keys h) (h_values h)) = Some (Inr h1)"
      by (simp add: resize_reposition)
    from assms(4) obtain i where
      i: "get_pos h k = Some (Inr i)" "i < length (h_values h)" "h_values h ! i = w"
      by (auto simp: get_Inr)
    from get_pos_found [OF i(1)] i(2,3)
    have "(Some k, w) \<in> set (zip (h_keys h) (h_values h))" "acceptable_key k"
      by (auto simp: in_set_zip)
    from reposition_gets [OF r slots_found_stored_keys(1) [OF assms(1)] this] show ?thesis .
  next
    case False
    with s(2) assms(4) show ?thesis by simp
  qed
  from set_item_keeps_get [OF s(3) _ this] assms(3) show ?thesis by simp
qed

section \<open>The containers the methods can reach\<close>

text \<open>
  On a container as the methods leave it, a put with an accepted key raises nothing:
  it returns, or one of its walks does not end. Every call leaves the container
  well formed, and as long as no key is deleted every key is found at its slot, so no
  key is in two slots.
\<close>

lemma set_item_returns:
  assumes "set_item h p key val = Some y"
  shows "returns h p key val y"
proof (rule set_item.raw_induct [where P = returns, OF _ assms])
  fix f :: "'v Hash \<Rightarrow> nat \<Rightarrow> key \<Rightarrow> 'v option \<Rightarrow> 'v outcome option"
  fix h position key val y
  assume IH: "\<And>h p key val y. f h p key val = Some y \<Longrightarrow> returns h p key val y"
  assume body: "(if position < length (h_keys h) then
        (let existing_key = h_keys h ! position in
         if existing_key = None \<or> existing_key = Some key then
           Some (set_item_at_pos h position key val)
         else
           (case probing h position of
              Inl e \<Rightarrow> Some (Inl (e, h))
            | Inr new_position \<Rightarrow> f h new_position key val))
      else Some (Inl (IndexError, h))) = Some y"
  show "returns h position key val y"
    unfolding returns_def
  proof (intro impI, elim conjE)
    assume wf: "length (h_keys h) = h_size h" "length (h_values h) = h_size h"
      "position < h_size h"
    show "\<exists>h'. y = Inr h'"
    proof (cases "h_keys h ! position = None \<or> h_keys h ! position = Some key")
      case True
      with body wf have "y = set_item_at_pos h position key val" by auto
      with wf show ?thesis by (simp add: set_item_at_pos_def Let_def)
    next
      case False
      from wf have np: "probing h position = Inr ((5 + position + 1) mod h_size h)"
        by (simp add: probing_def)
      with False body wf have "f h ((5 + position + 1) mod h_size h) key val = Some y"
        by auto
      from IH [OF this] wf show ?thesis by (simp add: returns_def)
    qed
  qed
qed

lemma custom_hash_acceptable: "acceptable_key key \<Longrightarrow> \<exists>n. custom_hash key = Inr n"
  by (cases key) simp_all

lemma calculate_position_less:
  "0 < h_size h \<Longrightarrow> \<exists>p. calculate_position h n = Inr p \<and> p < h_size h"
  by (simp add: calculate_position_def nat_less_iff)

lemma well_formed_placed:
  assumes "well_formed h" "acceptable_key key"
  shows "well_formed (placed h q key val)"
proof -
  have "set ((h_keys h)[q := Some key]) \<subseteq> insert (Some key) (set (h_keys h))"
    by (rule set_update_subset_insert)
  with assms show ?thesis by (auto simp: well_formed_def placed_def)
qed

lemma set_item_well_formed:
  assumes "well_formed h" "acceptable_key key" "p < h_size h" "set_item h p key val = Some y"
  shows "\<exists>h'. y = Inr h' \<and> well_formed h'"
proof -
  from set_item_returns [OF assms(4)] assms(1,3) obtain h' where y: "y = Inr h'"
    by (auto simp: returns_def well_formed_def)
  with assms(4) set_item_written obtain q where "h' = placed h q key val"
    by (fastforce simp: written_def)
  with well_formed_placed [OF assms(1,2)] y show ?thesis by simp
qed

lemma reposition_well_formed:
  "well_formed h \<Longrightarrow> \<forall>k \<in> set (stored_keys kvs). acceptable_key k \<Longrightarrow>
     reposition h kvs = Some y \<Longrightarrow> \<exists>h'. y = Inr h' \<and> well_formed h'"
proof (induction h kvs rule: reposition.induct)
  case (1 h)
  then show ?case by auto
next
  case (2 h val rest)
  then show ?case by simp
next
  case (3 h key val rest)
  from "3.prems"(2) have acc: "acceptable_key key"
    and rest: "\<forall>k \<in> set (stored_keys rest). acceptable_key k"
    by simp_all
  from "3.prems"(1) custom_hash_acceptable [OF acc] obtain hashvalue where
    hv: "h_hash h key = Inr hashvalue" by (auto simp: well_formed_def)
  from "3.prems"(1) calculate_position_less [of h hashvalue] obtain position where
    cp: "calculate_position h hashvalue = Inr position" "position < h_size h"
    by (auto simp: well_formed_def)
  from "3.prems"(3) hv cp obtain y1 where y1: "set_item h position key val = Some y1"
    by (cases "set_item h position key val") simp_all
  from set_item_well_formed [OF "3.prems"(1) acc cp(2) y1] obtain h1 where
    h1: "y1 = Inr h1" "well_formed h1" by blast
  with "3.prems"(3) hv cp y1 have "reposition h1 rest = Some y" by simp
  from "3.IH" [OF hv cp(1) _ refl h1(2) rest this] y1 h1(1) show ?case by simp
qed

lemma well_formed_emptied:
  "well_formed h \<Longrightarrow> well_formed (emptied h)"
  by (auto simp: well_formed_def emptied_def)

lemma well_formed_stored_keys:
  "well_formed h \<Longrightarrow> \<forall>k \<in> set (stored_keys (zip (h_keys h) (h_values h))). acceptable_key k"
  by (auto simp: well_formed_def stored_keys_set dest: set_zip_leftD)

lemma well_formed_removed: "well_formed h \<Longrightarrow> well_formed (removed h q)"
proof -
  have "set ((h_keys h)[q := None]) \<subseteq> insert None (set (h_keys h))"
    by (rule set_update_subset_insert)
  then show "well_formed h \<Longrightarrow> well_formed (removed h q)"
    by (auto simp: well_formed_def removed_def)
qed

lemma well_formed_init: "well_formed (Hash_init size_arg hashfunction)"
  by (simp add: well_formed_def Hash_init_def)

lemma put_well_formed:
  assumes "well_formed h" "acceptable_key key" "put h key val = Some y"
  shows "\<exists>h'. y = Inr h' \<and> well_formed h'"
proof -
  from assms(1) obtain expand where se: "should_expand h = Inr expand"
    by (auto simp: should_expand_def well_formed_def)
  with assms(2,3) obtain y1 where
    y1: "(if expand then resize h else Some (Inr h)) = Some y1"
    by (cases "if expand then resize h else Some (Inr h)")
       (simp_all add: put_def raise_if_not_acceptable_key_def)
  have "\<exists>h1. y1 = Inr h1 \<and> well_formed h1"
  proof (cases expand)
    case True
    with y1 have "reposition (emptied h) (zip (h_keys h) (h_values h)) = Some y1"
      by (simp add: resize_reposition)
    from reposition_well_formed
      [OF well_formed_emptied [OF assms(1)] well_formed_stored_keys [OF assms(1)] this]
    show ?thesis .
  next
    case False
    with y1 assms(1) show ?thesis by auto
  qed
  then obtain h1 where h1: "y1 = Inr h1" "well_formed h1" by blast
  from h1(2) custom_hash_acceptable [OF assms(2)] obtain hashvalue where
    hv: "h_hash h1 key = Inr hashvalue" by (auto simp: well_formed_def)
  from h1(2) calculate_position_less [of h1 hashvalue] obtain position where
    cp: "calculate_position h1 hashvalue = Inr position" "position < h_size h1"
    by (auto simp: well_formed_def)
  from assms(2,3) se y1 h1(1) hv cp have "set_item h1 position key val = Some y"
    by (simp add: put_def raise_if_not_acceptable_key_def)
  from set_item_well_formed [OF h1(2) assms(2) cp(2) this] show ?thesis .
qed

lemma delete_well_formed:
  assumes "well_formed h" "delete h key = Some y"
  shows "(\<exists>h'. y = Inr h' \<and> well_formed h') \<or> (\<exists>e. y = Inl (e, h))"
proof (cases y)
  case (Inl eh)
  with assms show ?thesis
    by (auto simp: well_formed_def delete_def delete_item_def Let_def
        split: option.splits sum.splits if_splits dest: get_pos_found)
next
  case (Inr h')
  with assms(2) delete_then_get obtain q where "h' = removed h q" by blast
  with well_formed_removed [OF assms(1)] Inr show ?thesis by simp
qed

lemma put_not_acceptable:
  "\<not> acceptable_key key \<Longrightarrow> put h key val = Some (Inl (TypeError, h))"
  by (simp add: put_def raise_if_not_acceptable_key_def)

lemma apply_operation_well_formed:
  assumes "well_formed h" "apply_operation h c = Some (r, h')"
  shows "well_formed h'"
proof (cases c)
  case (Put key val)
  show ?thesis
  proof (cases "acceptable_key key")
    case True
    from assms(2) Put obtain y where y: "put h key val = Some y"
      by (cases "put h key val") simp_all
    from put_well_formed [OF assms(1) True y] y assms(2) Put show ?thesis by auto
  next
    case False
    from put_not_acceptable [OF this, of h val] assms Put show ?thesis by simp
  qed
next
  case (Get key)
  with assms show ?thesis by (auto split: option.splits sum.splits)
next
  case (Delete key)
  from assms(2) Delete obtain y where y: "delete h key = Some y"
    by (cases "delete h key") simp_all
  from delete_well_formed [OF assms(1) y] y assms Delete show ?thesis by auto
qed

lemma apply_operations_well_formed:
  "well_formed h \<Longrightarrow> apply_operations h cs = Some (rs, h') \<Longrightarrow> well_formed h'"
proof (induction cs arbitrary: h rs)
  case Nil
  then show ?case by simp
next
  case (Cons c cs)
  from Cons.prems(2) obtain r h1 rs1 where
    s: "apply_operation h c = Some (r, h1)" "apply_operations h1 cs = Some (rs1, h')"
    by (auto split: option.splits)
  from Cons.IH [OF apply_operation_well_formed [OF Cons.prems(1) s(1)] s(2)] show ?case .
qed

lemma apply_operation_slots_found:
  assumes "well_formed h" "slots_found h" "\<forall>key. c \<noteq> Delete key"
    "apply_operation h c = Some (r, h')"
  shows "slots_found h'"
proof (cases c)
  case (Put key val)
  show ?thesis
  proof (cases "acceptable_key key")
    case True
    from assms(4) Put obtain y where y: "put h key val = Some y"
      by (cases "put h key val") simp_all
    from put_well_formed [OF assms(1) True y] y assms(4) Put
    have "put h key val = Some (Inr h')" by auto
    from put_slots_found [OF assms(2) this] show ?thesis .
  next
    case False
    from put_not_acceptable [OF this, of h val] assms Put show ?thesis by simp
  qed
next
  case (Get key)
  with assms show ?thesis by (auto split: option.splits sum.splits)
next
  case (Delete key)
  with assms(3) show ?thesis by simp
qed

lemma apply_operations_slots_found:
  "well_formed h \<Longrightarrow> slots_found h \<Longrightarrow> \<forall>key. Delete key \<notin> set cs \<Longrightarrow>
     apply_operations h cs = Some (rs, h') \<Longrightarrow> slots_found h'"
proof (induction cs arbitrary: h rs)
  case Nil
  then show ?case by simp
next
  case (Cons c cs)
  from Cons.prems(4) obtain r h1 rs1 where
    s: "apply_operation h c = Some (r, h1)" "apply_operations h1 cs = Some (rs1, h')"
    by (auto split: option.splits)
  from Cons.prems(3) have c: "\<forall>key. c \<noteq> Delete key" and cs: "\<forall>key. Delete key \<notin> set cs"
    by auto
  from apply_operation_well_formed [OF Cons.prems(1) s(1)]
    apply_operation_slots_found [OF Cons.prems(1,2) c s(1)] cs s(2)
  show ?case by (rule Cons.IH)
qed

lemma unique_keys_without_delete:
  assumes "\<forall>key. Delete key \<notin> set cs"
    "apply_operations (Hash_init size_arg hashfunction) cs = Some (rs, h)"
    "i < length (h_keys h)" "j < length (h_keys h)"
    "h_keys h ! i = Some k" "h_keys h ! j = Some k"
  shows "i = j"
proof -
  from apply_operations_slots_found [OF well_formed_init slots_found_init assms(1,2)]
  have "slots_found h" .
  from slots_found_unique [OF this assms(3-6)] show ?thesis .
qed

text \<open>
  C5. On a new container, the keys 0 and 8 are put (8 collides with 0 and goes to
  slot 6), 0 is deleted and 8 is put again: the walk for 8 stops at the freed slot 0,
  and the key 8 is in the slots 0 and 6.
\<close>

theorem C5_duplicate_key:
  "observed (apply_operations (Hash_init 8 custom_hash)
      [Put (IntKey 0) (Some ''x''), Put (IntKey 8) (Some ''a''), Delete (IntKey 0),
       Put (IntKey 8) (Some ''b'')])
   = Some ([Returned None, Returned None, Returned None, Returned None], 8, 3, 1,
           [Some (IntKey 8), None, None, None, None, None, Some (IntKey 8), None],
           [Some ''b'', None, None, None, None, None, Some ''a'', None])"
  by code_simp

section \<open>Growth\<close>

text \<open>
  A put whose test finds the threshold reached multiplies the size by four, has the
  counter of deleted keys at zero and the counter of used slots at the number of
  slots put back plus one, and, where no key was in two slots, returns for each
  other key the value of its slot.
\<close>

lemma resize_fields:
  assumes "resize h = Some (Inr h')"
  shows "h_size h' = h_size h * 4 \<and> length (h_keys h') = h_size h * 4
         \<and> length (h_values h') = h_size h * 4 \<and> h_dummy_slots h' = 0
         \<and> h_used_slots h' = length (stored_keys (zip (h_keys h) (h_values h)))
         \<and> h_hash h' = h_hash h"
  using reposition_fields [OF assms [unfolded resize_reposition]]
    reposition_used_slots [OF assms [unfolded resize_reposition]]
  by (simp add: emptied_def)

lemma put_growth:
  assumes "should_expand h = Inr True" "put h key val = Some (Inr h')"
  shows "h_size h' = h_size h * 4 \<and> length (h_keys h') = h_size h * 4
         \<and> length (h_values h') = h_size h * 4 \<and> h_dummy_slots h' = 0
         \<and> h_used_slots h' = length (stored_keys (zip (h_keys h) (h_values h))) + 1
         \<and> h_hash h' = h_hash h"
proof -
  from assms(2) obtain expand h1 and hashvalue :: int and position where
    s: "should_expand h = Inr expand"
       "(if expand then resize h else Some (Inr h)) = Some (Inr h1)"
       "set_item h1 position key val = Some (Inr h')"
    by (rule put_steps)
  with assms(1) have "resize h = Some (Inr h1)" by simp
  from resize_fields [OF this] set_item_fields [OF s(3)] show ?thesis by simp
qed

lemma put_growth_keeps_values:
  assumes "should_expand h = Inr True" "put h key val = Some (Inr h')"
    "distinct (stored_keys (zip (h_keys h) (h_values h)))"
    "i < length (h_keys h)" "i < length (h_values h)" "h_keys h ! i = Some k"
    "acceptable_key k" "k \<noteq> key"
  shows "get h' k = Some (Inr (h_values h ! i))"
proof -
  from assms(2) obtain expand h1 and hashvalue :: int and position where
    s: "should_expand h = Inr expand"
       "(if expand then resize h else Some (Inr h)) = Some (Inr h1)"
       "set_item h1 position key val = Some (Inr h')"
    by (rule put_steps)
  with assms(1) have r: "reposition (emptied h) (zip (h_keys h) (h_values h)) = Some (Inr h1)"
    by (simp add: resize_reposition)
  from assms(4,5,6) have "(Some k, h_values h ! i) \<in> set (zip (h_keys h) (h_values h))"
    by (auto simp: in_set_zip)
  from reposition_gets [OF r assms(3) this assms(7)]
  have "get h1 k = Some (Inr (h_values h ! i))" .
  from set_item_keeps_get [OF s(3) _ this] assms(8) show ?thesis by simp
qed

text \<open>
  C3, as stated, fails. On a new container of size 8, after put("a",1), put("b",2),
  put("c",3), put("d",4), put("e",5), put("f",6) the size is 8, not 32.
\<close>

theorem C3_counterexample:
  "map_option (h_size \<circ> snd) (apply_operations (Hash_init 8 custom_hash)
      [Put (StrKey ''a'') (Some (1::int)), Put (StrKey ''b'') (Some 2),
       Put (StrKey ''c'') (Some 3), Put (StrKey ''d'') (Some 4),
       Put (StrKey ''e'') (Some 5), Put (StrKey ''f'') (Some 6)]) = Some 8
   \<and> map_option (h_size \<circ> snd) (apply_operations (Hash_init 8 custom_hash)
      [Put (StrKey ''a'') (Some (1::int)), Put (StrKey ''b'') (Some 2),
       Put (StrKey ''c'') (Some 3), Put (StrKey ''d'') (Some 4),
       Put (StrKey ''e'') (Some 5), Put (StrKey ''f'') (Some 6)]) \<noteq> Some 32"
  by code_simp

text \<open>
  C3, amended. The test of the sixth put sees five used slots, 5/8 < 0.70, and does
  not grow the container: after the six puts the size is 8 and get("a") to get("f")
  return 1 to 6. The test of a seventh put sees 6/8 >= 0.70: the put grows the
  container to the size 32 before it places its key, and get("a") to get("f") still
  return 1 to 6.
\<close>

theorem C3_growth_at_seventh_put:
  "map_option (should_expand \<circ> snd) (apply_operations (Hash_init 8 custom_hash)
      [Put (StrKey ''a'') (Some (1::int)), Put (StrKey ''b'') (Some 2),
       Put (StrKey ''c'') (Some 3), Put (StrKey ''d'') (Some 4),
       Put (StrKey ''e'') (Some 5)]) = Some (Inr False)
   \<and> observed (apply_operations (Hash_init 8 custom_hash)
      [Put (StrKey ''a'') (Some (1::int)), Put (StrKey ''b'') (Some 2),
       Put (StrKey ''c'') (Some 3), Put (StrKey ''d'') (Some 4),
       Put (StrKey ''e'') (Some 5), Put (StrKey ''f'') (Some 6),
       Get (StrKey ''a''), Get (StrKey ''b''), Get (StrKey ''c''),
       Get (StrKey ''d''), Get (StrKey ''e''), Get (StrKey ''f'')])
     = Some ([Returned None, Returned None, Returned None, Returned None, Returned None,
              Returned None, Returned (Some 1), Returned (Some 2), Returned (Some 3),
              Returned (Some 4), Returned (Some 5), Returned (Some 6)], 8, 6, 0,
             [Some (StrKey ''c''), Some (StrKey ''d''), Some (StrKey ''e''),
              Some (StrKey ''f''), None, None, Some (StrKey ''a''), Some (StrKey ''b'')],
             [Some 3, Some 4, Some 5, Some 6, None, None, Some 1, Some 2])
   \<and> map_option (should_expand \<circ> snd) (apply_operations (Hash_init 8 custom_hash)
      [Put (StrKey ''a'') (Some (1::int)), Put (StrKey ''b'') (Some 2),
       Put (StrKey ''c'') (Some 3), Put (StrKey ''d'') (Some 4),
       Put (StrKey ''e'') (Some 5), Put (StrKey ''f'') (Some 6)]) = Some (Inr True)
   \<and> observed (apply_operations (Hash_init 8 custom_hash)
      [Put (StrKey ''a'') (Some (1::int)), Put (StrKey ''b'') (Some 2),
       Put (StrKey ''c'') (Some 3), Put (StrKey ''d'') (Some 4),
       Put (StrKey ''e'') (Some 5), Put (StrKey ''f'') (Some 6),
       Put (StrKey ''g'') (Some 7),
       Get (StrKey ''a''), Get (StrKey ''b''), Get (StrKey ''c''),
       Get (StrKey ''d''), Get (StrKey ''e''), Get (StrKey ''f'')])
     = Some ([Returned None, Returned None, Returned None, Returned None, Returned None,
              Returned None, Returned None, Returned (Some 1), Returned (Some 2),
              Returned (Some 3), Returned (Some 4), Returned (Some 5), Returned (Some 6)],
             32, 7, 0,
             replicate 6 None @
             [Some (StrKey ''a''), Some (StrKey ''b''), Some (StrKey ''c''),
              Some (StrKey ''d''), Some (StrKey ''e''), Some (StrKey ''f''),
              Some (StrKey ''g'')] @ replicate 19 None,
             replicate 6 None @
             [Some 1, Some 2, Some 3, Some 4, Some 5, Some 6, Some 7] @ replicate 19 None)"
  by code_simp

text \<open>
  C8. The key 8 is put with "a" behind the key 0, the key 0 is deleted and the key 8
  is put with "b": it now sits in the slots 0 and 6, and get(8) returns "b". Two more
  puts bring the counters to 6 of 8, so the next put grows the container: the old
  slots are put back in index order, slot 6 after slot 0, and get(8) returns "a".
\<close>

theorem C8_growth_restores_old_value:
  "observed (apply_operations (Hash_init 8 custom_hash)
      [Put (IntKey 0) (Some ''x''), Put (IntKey 8) (Some ''a''), Delete (IntKey 0),
       Put (IntKey 8) (Some ''b''), Get (IntKey 8),
       Put (IntKey 1) (Some ''c''), Put (IntKey 2) (Some ''d'')])
   = Some ([Returned None, Returned None, Returned None, Returned None,
            Returned (Some ''b''), Returned None, Returned None], 8, 5, 1,
           [Some (IntKey 8), Some (IntKey 1), Some (IntKey 2), None, None, None,
            Some (IntKey 8), None],
           [Some ''b'', Some ''c'', Some ''d'', None, None, None, Some ''a'', None])
   \<and> observed (apply_operations (Hash_init 8 custom_hash)
      [Put (IntKey 0) (Some ''x''), Put (IntKey 8) (Some ''a''), Delete (IntKey 0),
       Put (IntKey 8) (Some ''b''), Get (IntKey 8),
       Put (IntKey 1) (Some ''c''), Put (IntKey 2) (Some ''d''),
       Put (IntKey 3) (Some ''e''), Get (IntKey 8)])
   = Some ([Returned None, Returned None, Returned None, Returned None,
            Returned (Some ''b''), Returned None, Returned None, Returned None,
            Returned (Some ''a'')], 32, 5, 0,
           [None, Some (IntKey 1), Some (IntKey 2), Some (IntKey 3), None, None, None, None,
            Some (IntKey 8)] @ replicate 23 None,
           [None, Some ''c'', Some ''d'', Some ''e'', None, None, None, None,
            Some ''a''] @ replicate 23 None)"
  by code_simp

end
